theory Spec2Isabelle
  imports Main
begin

section \<open>Python values shared by both notebooks\<close>

text \<open>
  The exceptions that the modelled code can raise. \<open>Exception\<close> stands for whatever a
  user-defined constructor raises.
\<close>

datatype exn = TypeError | ValueError | KeyError | Exception string

section \<open>Creational/Singleton: the metaclass \<open>SingletonMeta\<close>\<close>

subsection \<open>Data model\<close>

text \<open>
  \<open>SingletonMeta._instances\<close> is a dict from the class being called (\<open>self\<close> in
  \<open>__call__\<close>) to the instance built for it. Instances are Python objects, so they have
  an identity: the model keeps them in a heap, a list of objects, and the identity of an
  object is its position in that list. The dict holds identities.
\<close>

record ('c, 'o) meta =
  instances :: "'c \<rightharpoonup> nat"
  heap :: "'o list"

text \<open>The call arguments \<open>*args, **kwargs\<close>.\<close>

record 'v pyargs =
  args :: "'v list"
  kwargs :: "(string \<times> 'v) list"

text \<open>
  The class \<open>Singleton\<close> of the notebook: one attribute \<open>__value\<close>, set by
  \<open>__init__(self, value)\<close>. \<open>Singleton_new\<close> is \<open>type.__call__\<close> on that class:
  it binds the arguments to the one parameter \<open>value\<close> and raises \<open>TypeError\<close> when they
  do not fit.
\<close>

record 'v Singleton =
  Singleton_value :: 'v

definition Singleton_new :: "'v pyargs \<Rightarrow> exn + 'v Singleton" where
  "Singleton_new a =
     (case (args a, kwargs a) of
        ([v], []) \<Rightarrow> Inr \<lparr>Singleton_value = v\<rparr>
      | ([], [(k, v)]) \<Rightarrow> if k = ''value'' then Inr \<lparr>Singleton_value = v\<rparr> else Inl TypeError
      | _ \<Rightarrow> Inl TypeError)"

text \<open>\<open>Singleton.some_business_logic\<close> prints the stored value; \<open>out\<close> is what was printed so far.\<close>

definition Singleton_some_business_logic :: "'v Singleton \<Rightarrow> 'v list \<Rightarrow> 'v list" where
  "Singleton_some_business_logic obj out = out @ [Singleton_value obj]"

subsection \<open>\<open>SingletonMeta.__call__\<close>, one caller at a time\<close>

text \<open>\<open>d[k]\<close> on a dict raises \<open>KeyError\<close> for a missing key.\<close>

definition getitem :: "('k \<rightharpoonup> 'v) \<Rightarrow> 'k \<Rightarrow> exn + 'v" where
  "getitem d k = (case d k of None \<Rightarrow> Inl KeyError | Some v \<Rightarrow> Inr v)"

text \<open>
  The body of \<open>__call__\<close> when no other thread interferes. \<open>ctor self a\<close> is
  \<open>super().__call__(*args, **kwargs)\<close>, the construction of an instance of the class
  \<open>self\<close>; it returns the new object or raises. A new object is appended to the heap
  and its identity is stored in the dict. The result is the returned identity, or the
  exception that left the call, and the state after the call. The lock is taken on entry
  and released on every exit of the \<open>with\<close> block, so it does not appear here; the
  threaded model below has it.
\<close>

definition call ::
  "('c \<Rightarrow> 'a \<Rightarrow> exn + 'o) \<Rightarrow> 'c \<Rightarrow> 'a \<Rightarrow> ('c, 'o) meta \<Rightarrow> (exn + nat) \<times> ('c, 'o) meta" where
  "call ctor self a s =
     (if instances s self = None then
        (case ctor self a of
           Inl e \<Rightarrow> (Inl e, s)
         | Inr obj \<Rightarrow>
             let instance = length (heap s);
                 s' = s\<lparr>heap := heap s @ [obj],
                        instances := (instances s)(self \<mapsto> instance)\<rparr>
             in (getitem (instances s') self, s'))
      else (getitem (instances s) self, s))"

text \<open>A sequence of calls, each a class and its arguments; a raising call does not stop the next.\<close>

fun calls :: "('c \<Rightarrow> 'a \<Rightarrow> exn + 'o) \<Rightarrow> ('c \<times> 'a) list \<Rightarrow> ('c, 'o) meta \<Rightarrow> ('c, 'o) meta" where
  "calls ctor [] s = s"
| "calls ctor ((c, a) # cs) s = calls ctor cs (snd (call ctor c a s))"

text \<open>The state of a fresh process: \<open>_instances = {}\<close> and no object built.\<close>

definition fresh :: "('c, 'o) meta" where
  "fresh = \<lparr>instances = Map.empty, heap = []\<rparr>"

text \<open>The construction used for the notebook's scenario: every class is \<open>Singleton\<close>.\<close>

definition Singleton_ctor :: "string \<Rightarrow> string pyargs \<Rightarrow> exn + string Singleton" where
  "Singleton_ctor c a = Singleton_new a"

definition positional :: "'v list \<Rightarrow> 'v pyargs" where
  "positional vs = \<lparr>args = vs, kwargs = []\<rparr>"

subsection \<open>\<open>SingletonMeta.__call__\<close> under threads\<close>

text \<open>
  Several threads run \<open>__call__\<close> at once. Each thread is at one of the statements of
  the method; a step of the system is one thread executing its next statement:
  \<^item> \<open>Start\<close>: before \<open>with self._lock:\<close>; the step acquires the lock, and does nothing
    while another thread holds it (the thread waits);
  \<^item> \<open>AtCheck\<close>: before \<open>if self not in self._instances:\<close>;
  \<^item> \<open>AtConstruct\<close>: before \<open>instance = super().__call__(*args, **kwargs)\<close>;
  \<^item> \<open>AtStore r\<close>: before \<open>self._instances[self] = instance\<close>, the local \<open>instance\<close>
    being the object \<open>r\<close>;
  \<^item> \<open>AtReturn\<close>: before \<open>return self._instances[self]\<close>;
  \<^item> \<open>AtExit res\<close>: leaving the \<open>with\<close> block, by the \<open>return\<close> or by an exception;
    the step releases the lock;
  \<^item> \<open>Done res\<close>: the call has returned \<open>res\<close> or raised.
  \<open>_lock\<close> and \<open>_instances\<close> are attributes of the metaclass, so all classes and all
  threads share them. The lock records which thread acquired it. The trace lists the
  statements executed so far, each with the thread that executed it.
\<close>

datatype pc = Start | AtCheck | AtConstruct | AtStore nat | AtReturn
  | AtExit "exn + nat" | Done "exn + nat"

datatype event = Acquire | Check | Construct | Store | Read | Release

record ('c, 'a) thread =
  cls :: 'c
  targs :: 'a
  pc :: pc

record ('c, 'o, 'a) system =
  shared :: "('c, 'o) meta"
  lock :: "nat option"
  threads :: "('c, 'a) thread list"
  trace :: "(nat \<times> event) list"

definition goto ::
  "nat \<Rightarrow> pc \<Rightarrow> event \<Rightarrow> ('c, 'o, 'a) system \<Rightarrow> ('c, 'o, 'a) system" where
  "goto i p ev s =
     s\<lparr>threads := (threads s)[i := (threads s ! i)\<lparr>pc := p\<rparr>],
       trace := trace s @ [(i, ev)]\<rparr>"

definition step ::
  "('c \<Rightarrow> 'a \<Rightarrow> exn + 'o) \<Rightarrow> nat \<Rightarrow> ('c, 'o, 'a) system \<Rightarrow> ('c, 'o, 'a) system" where
  "step ctor i s =
     (if i < length (threads s) then
        let t = threads s ! i; m = shared s in
        case pc t of
          Start \<Rightarrow>
            (case lock s of
               None \<Rightarrow> goto i AtCheck Acquire (s\<lparr>lock := Some i\<rparr>)
             | Some j \<Rightarrow> s)
        | AtCheck \<Rightarrow>
            goto i (if instances m (cls t) = None then AtConstruct else AtReturn) Check s
        | AtConstruct \<Rightarrow>
            (case ctor (cls t) (targs t) of
               Inl e \<Rightarrow> goto i (AtExit (Inl e)) Construct s
             | Inr obj \<Rightarrow>
                 goto i (AtStore (length (heap m))) Construct
                   (s\<lparr>shared := m\<lparr>heap := heap m @ [obj]\<rparr>\<rparr>))
        | AtStore r \<Rightarrow>
            goto i AtReturn Store
              (s\<lparr>shared := m\<lparr>instances := (instances m)(cls t \<mapsto> r)\<rparr>\<rparr>)
        | AtReturn \<Rightarrow> goto i (AtExit (getitem (instances m) (cls t))) Read s
        | AtExit res \<Rightarrow> goto i (Done res) Release (s\<lparr>lock := None\<rparr>)
        | Done res \<Rightarrow> s
      else s)"

text \<open>A schedule says which thread moves next; every interleaving is some schedule.\<close>

fun run ::
  "('c \<Rightarrow> 'a \<Rightarrow> exn + 'o) \<Rightarrow> nat list \<Rightarrow> ('c, 'o, 'a) system \<Rightarrow> ('c, 'o, 'a) system" where
  "run ctor [] s = s"
| "run ctor (i # sched) s = run ctor sched (step ctor i s)"

text \<open>The system when the calls \<open>cs\<close> have just been made, one thread each, on the state \<open>m\<close>.\<close>

definition boot :: "('c, 'o) meta \<Rightarrow> ('c \<times> 'a) list \<Rightarrow> ('c, 'o, 'a) system" where
  "boot m cs =
     \<lparr>shared = m, lock = None,
      threads = map (\<lambda>(c, a). \<lparr>cls = c, targs = a, pc = Start\<rparr>) cs,
      trace = []\<rparr>"

text \<open>Being inside the \<open>with\<close> block, and being about to read or write \<open>_instances\<close>.\<close>

fun in_with :: "pc \<Rightarrow> bool" where
  "in_with Start = False"
| "in_with (Done res) = False"
| "in_with p = True"


fun finished :: "pc \<Rightarrow> bool" where
  "finished (Done res) = True"
| "finished p = False"

text \<open>The statements one thread has executed, in order, and the constructions so far.\<close>

definition steps_of :: "nat \<Rightarrow> ('c, 'o, 'a) system \<Rightarrow> event list" where
  "steps_of i s = map snd (filter (\<lambda>x. fst x = i) (trace s))"

definition constructions :: "('c, 'o, 'a) system \<Rightarrow> nat" where
  "constructions s = length (filter (\<lambda>x. snd x = Construct) (trace s))"

subsection \<open>What holds in every reachable state of the threaded model\<close>

text \<open>
  \<open>shape p es\<close>: the statements \<open>es\<close> are what a thread standing at \<open>p\<close> should have
  executed, in the order the specification of the call gives: the lock is acquired
  first, the check follows at once, construction and store come only after the check,
  the read of the stored value comes before the release. That the threads of the model
  keep to it is proved below.
\<close>

fun shape :: "pc \<Rightarrow> event list \<Rightarrow> bool" where
  "shape Start es = (es = [])"
| "shape AtCheck es = (es = [Acquire])"
| "shape AtConstruct es = (es = [Acquire, Check])"
| "shape (AtStore r) es = (es = [Acquire, Check, Construct])"
| "shape AtReturn es =
     (es = [Acquire, Check] \<or> es = [Acquire, Check, Construct, Store])"
| "shape (AtExit (Inr r)) es =
     (es = [Acquire, Check, Read] \<or> es = [Acquire, Check, Construct, Store, Read])"
| "shape (AtExit (Inl e)) es = (es = [Acquire, Check, Construct])"
| "shape (Done (Inr r)) es =
     (es = [Acquire, Check, Read, Release] \<or>
      es = [Acquire, Check, Construct, Store, Read, Release])"
| "shape (Done (Inl e)) es = (es = [Acquire, Check, Construct, Release])"

text \<open>
  \<open>thread_ok\<close>: what is known about one thread from where it stands. A thread is inside
  the \<open>with\<close> block exactly when it is the one that acquired the lock; it constructs and
  stores only while the dict has no entry for its class; what it returns is the entry of
  its class; an exception that leaves the call is the one the construction raised.
\<close>

definition thread_ok ::
  "('c \<Rightarrow> 'a \<Rightarrow> exn + 'o) \<Rightarrow> ('c, 'o, 'a) system \<Rightarrow> nat \<Rightarrow> bool" where
  "thread_ok ctor s i \<longleftrightarrow>
     (let t = threads s ! i; slot = instances (shared s) (cls t) in
      (in_with (pc t) \<longleftrightarrow> lock s = Some i) \<and>
      (pc t = AtConstruct \<longrightarrow> slot = None) \<and>
      (\<forall>r. pc t = AtStore r \<longrightarrow> slot = None) \<and>
      (pc t = AtReturn \<longrightarrow> slot \<noteq> None) \<and>
      (\<forall>r. pc t = AtExit (Inr r) \<or> pc t = Done (Inr r) \<longrightarrow> slot = Some r) \<and>
      (\<forall>e. pc t = AtExit (Inl e) \<or> pc t = Done (Inl e) \<longrightarrow> ctor (cls t) (targs t) = Inl e) \<and>
      shape (pc t) (steps_of i s))"

definition sound :: "('c \<Rightarrow> 'a \<Rightarrow> exn + 'o) \<Rightarrow> ('c, 'o, 'a) system \<Rightarrow> bool" where
  "sound ctor s \<longleftrightarrow>
     (\<forall>i < length (threads s). thread_ok ctor s i) \<and>
     (\<forall>i. lock s = Some i \<longrightarrow> i < length (threads s))"

text \<open>
  \<open>first_time c ctor h0\<close>: all threads call the class \<open>c\<close>, no construction of theirs
  raises, and the heap had \<open>h0\<close> objects when the calls were made. Then a construction
  has happened exactly when the entry of \<open>c\<close> exists or a thread is about to store it,
  and the object built is the one at position \<open>h0\<close>.
\<close>

definition first_time ::
  "'c \<Rightarrow> ('c \<Rightarrow> 'a \<Rightarrow> exn + 'o) \<Rightarrow> nat \<Rightarrow> ('c, 'o, 'a) system \<Rightarrow> bool" where
  "first_time c ctor h0 s \<longleftrightarrow>
     (\<forall>i < length (threads s).
        cls (threads s ! i) = c \<and> (\<exists>obj. ctor c (targs (threads s ! i)) = Inr obj) \<and>
        (pc (threads s ! i) = AtConstruct \<longrightarrow> constructions s = 0) \<and>
        (\<forall>r. pc (threads s ! i) = AtStore r \<longrightarrow> r = h0 \<and> constructions s = 1)) \<and>
     (\<forall>r. instances (shared s) c = Some r \<longrightarrow> r = h0 \<and> constructions s = 1) \<and>
     (constructions s = 0 \<or> instances (shared s) c \<noteq> None \<or>
        (\<exists>j < length (threads s). \<exists>r. pc (threads s ! j) = AtStore r)) \<and>
     length (heap (shared s)) = h0 + constructions s \<and>
     (constructions s = 1 \<longrightarrow>
        (\<exists>j < length (threads s). ctor c (targs (threads s ! j)) = Inr (heap (shared s) ! h0)))"

text \<open>
  The client code of the notebook: two threads call \<open>Singleton\<close>, one with \<open>"FOO"\<close> and
  one with \<open>"BAR"\<close>, in a fresh process.
\<close>

definition main_args :: "string pyargs list" where
  "main_args = [positional [''FOO''], positional [''BAR'']]"

definition main_system :: "(string, string Singleton, string pyargs) system" where
  "main_system = boot fresh (map (Pair ''Singleton'') main_args)"

section \<open>Behavioral/Observer: \<open>ConcreteSubject\<close> and its observers\<close>

text \<open>
  Observers and subjects are objects; the number is the identity of the object.
  \<open>list.remove\<close> and \<open>in\<close> compare with \<open>==\<close>, which no class here overrides, so two
  observers are equal when they are the same object.
\<close>

datatype observer = ConcreteObserverA nat | ConcreteObserverB nat

text \<open>
  \<open>_observers\<close> is assigned once, in the class body of \<open>ConcreteSubject\<close>, and no method
  assigns \<open>self._observers\<close>: every instance reaches the one list of the class.
  \<open>_state\<close> is \<open>None\<close> in the class and \<open>some_business_logic\<close> assigns it on the
  instance, so each subject has its own; \<open>None\<close> here is Python's \<open>None\<close>.
  \<open>printed\<close> is the console. \<open>updated\<close> records each call of \<open>update\<close>: the observer
  called and the subject passed.
\<close>

record world =
  observers :: "observer list"
  subject_state :: "nat \<Rightarrow> int option"
  printed :: "string list"
  updated :: "(observer \<times> nat) list"

definition print :: "string \<Rightarrow> world \<Rightarrow> world" where
  "print line w = w\<lparr>printed := printed w @ [line]\<rparr>"

text \<open>
  \<open>update\<close> of the two observer classes. Comparing \<open>None\<close> with an int by \<open><\<close> or
  \<open>>=\<close> raises \<open>TypeError\<close>; \<open>None == 0\<close> is false.
\<close>

fun update :: "observer \<Rightarrow> nat \<Rightarrow> world \<Rightarrow> exn option \<times> world" where
  "update (ConcreteObserverA k) subject w =
     (let w1 = w\<lparr>updated := updated w @ [(ConcreteObserverA k, subject)]\<rparr> in
      case subject_state w1 subject of
        None \<Rightarrow> (Some TypeError, w1)
      | Some v \<Rightarrow>
          (None, if v < 3 then print ''ConcreteObserverA: Reacted to the event'' w1 else w1))"
| "update (ConcreteObserverB k) subject w =
     (let w1 = w\<lparr>updated := updated w @ [(ConcreteObserverB k, subject)]\<rparr> in
      case subject_state w1 subject of
        None \<Rightarrow> (Some TypeError, w1)
      | Some v \<Rightarrow>
          (None, if v = 0 \<or> v \<ge> 2 then print ''ConcreteObserverB: Reacted to the event'' w1
                 else w1))"

definition attach :: "nat \<Rightarrow> observer \<Rightarrow> world \<Rightarrow> world" where
  "attach self observer w =
     (let w1 = print ''Subject: Attached an observer.'' w
      in w1\<lparr>observers := observers w1 @ [observer]\<rparr>)"

text \<open>\<open>list.remove(x)\<close>: drop the first element equal to \<open>x\<close>, or raise \<open>ValueError\<close>.\<close>

fun list_remove :: "'a \<Rightarrow> 'a list \<Rightarrow> exn + 'a list" where
  "list_remove x [] = Inl ValueError"
| "list_remove x (y # ys) =
     (if y = x then Inr ys
      else case list_remove x ys of Inl e \<Rightarrow> Inl e | Inr zs \<Rightarrow> Inr (y # zs))"

definition detach :: "nat \<Rightarrow> observer \<Rightarrow> world \<Rightarrow> exn option \<times> world" where
  "detach self observer w =
     (let w1 = print ''Subject: Detached an observer.'' w in
      case list_remove observer (observers w1) of
        Inl e \<Rightarrow> (Some e, w1)
      | Inr xs \<Rightarrow> (None, w1\<lparr>observers := xs\<rparr>))"

text \<open>The \<open>for\<close> loop of \<open>notify\<close>: an exception from \<open>update\<close> ends it.\<close>

fun notify_loop :: "observer list \<Rightarrow> nat \<Rightarrow> world \<Rightarrow> exn option \<times> world" where
  "notify_loop [] self w = (None, w)"
| "notify_loop (observer # rest) self w =
     (case update observer self w of
        (Some e, w') \<Rightarrow> (Some e, w')
      | (None, w') \<Rightarrow> notify_loop rest self w')"

definition notify :: "nat \<Rightarrow> world \<Rightarrow> exn option \<times> world" where
  "notify self w =
     (let w1 = print ''Subject: Notifying observers...'' w
      in notify_loop (observers w1) self w1)"

text \<open>
  \<open>ConcreteSubject.some_business_logic\<close>; \<open>r\<close> is the value \<open>randrange(0, 10)\<close> returns,
  a single digit.
\<close>

definition ConcreteSubject_some_business_logic ::
  "int \<Rightarrow> nat \<Rightarrow> world \<Rightarrow> exn option \<times> world" where
  "ConcreteSubject_some_business_logic r self w =
     (let w1 = print (CHR 0x0A # ''Subject: I'' @ [CHR 0x27] @ ''m doing something important.'') w;
          w2 = w1\<lparr>subject_state := (subject_state w1)(self := Some r)\<rparr>;
          w3 = print (''Subject: My state has just changed to: '' @ [char_of (48 + r)]) w2
      in notify self w3)"

text \<open>The update calls that a run from \<open>w\<close> to \<open>w'\<close> added.\<close>

definition new_updates :: "world \<Rightarrow> world \<Rightarrow> (observer \<times> nat) list" where
  "new_updates w w' = drop (length (updated w)) (updated w')"

text \<open>A process in which nothing has happened yet.\<close>

definition world0 :: world where
  "world0 = \<lparr>observers = [], subject_state = (\<lambda>s. None), printed = [], updated = []\<rparr>"

text \<open>
  Worlds used as examples. In \<open>state_set\<close> subject 0 has run \<open>some_business_logic\<close>
  once, with no observer attached, and \<open>randrange\<close> returned 5. \<open>twice_attached\<close>
  attaches the same observer twice after that; \<open>demo_world\<close> attaches the two observers
  of the notebook.
\<close>

definition state_set :: world where
  "state_set = snd (ConcreteSubject_some_business_logic 5 0 world0)"

definition twice_attached :: world where
  "twice_attached = attach 0 (ConcreteObserverA 0) (attach 0 (ConcreteObserverA 0) state_set)"

definition demo_world :: world where
  "demo_world = attach 0 (ConcreteObserverB 1) (attach 0 (ConcreteObserverA 0) state_set)"

section \<open>Properties of the sequential call\<close>

lemma call_present:
  "instances s c = Some r \<Longrightarrow> call ctor c a s = (Inr r, s)"
  by (simp add: call_def getitem_def)

lemma call_absent_ok:
  "instances s c = None \<Longrightarrow> ctor c a = Inr obj \<Longrightarrow>
   call ctor c a s =
     (Inr (length (heap s)),
      s\<lparr>heap := heap s @ [obj], instances := (instances s)(c \<mapsto> length (heap s))\<rparr>)"
  by (simp add: call_def getitem_def Let_def)

lemma call_absent_raise:
  "instances s c = None \<Longrightarrow> ctor c a = Inl e \<Longrightarrow> call ctor c a s = (Inl e, s)"
  by (simp add: call_def)

lemma call_keeps_entry:
  "instances s c = Some r \<Longrightarrow> instances (snd (call ctor c' a s)) c = Some r"
  by (cases "c' = c") (auto simp: call_def Let_def split: sum.splits)

lemma calls_keeps_entry:
  "instances s c = Some r \<Longrightarrow> instances (calls ctor cs s) c = Some r"
proof (induction cs arbitrary: s)
  case Nil
  then show ?case by simp
next
  case (Cons x cs)
  obtain c' a where x: "x = (c', a)" by (cases x)
  from Cons.prems have "instances (snd (call ctor c' a s)) c = Some r"
    by (rule call_keeps_entry)
  then show ?case using Cons.IH x by simp
qed

lemma calls_append:
  "calls ctor (cs @ ds) s = calls ctor ds (calls ctor cs s)"
  by (induction cs arbitrary: s) auto

lemma calls_same_class:
  "instances s c = Some r \<Longrightarrow> calls ctor (map (Pair c) as) s = s"
  by (induction as) (simp_all add: call_present)

section \<open>Properties of the threaded model\<close>

lemma goto_fields [simp]:
  "shared (goto i p ev s) = shared s"
  "lock (goto i p ev s) = lock s"
  "length (threads (goto i p ev s)) = length (threads s)"
  "trace (goto i p ev s) = trace s @ [(i, ev)]"
  by (simp_all add: goto_def)

lemma goto_thread [simp]:
  "j < length (threads s) \<Longrightarrow>
   pc (threads (goto i p ev s) ! j) = (if j = i then p else pc (threads s ! j))"
  "j < length (threads s) \<Longrightarrow> cls (threads (goto i p ev s) ! j) = cls (threads s ! j)"
  "j < length (threads s) \<Longrightarrow> targs (threads (goto i p ev s) ! j) = targs (threads s ! j)"
  by (cases "j = i"; simp add: goto_def)+

lemma steps_of_goto [simp]:
  "steps_of j (goto i p ev s) = steps_of j s @ (if j = i then [ev] else [])"
  by (simp add: steps_of_def)

lemma steps_of_update [simp]:
  "steps_of j (s\<lparr>lock := l\<rparr>) = steps_of j s"
  "steps_of j (s\<lparr>shared := m\<rparr>) = steps_of j s"
  by (simp_all add: steps_of_def)

lemma step_simps:
  "\<not> i < length (threads s) \<Longrightarrow> step ctor i s = s"
  "i < length (threads s) \<Longrightarrow> pc (threads s ! i) = Start \<Longrightarrow> lock s = None \<Longrightarrow>
     step ctor i s = goto i AtCheck Acquire (s\<lparr>lock := Some i\<rparr>)"
  "i < length (threads s) \<Longrightarrow> pc (threads s ! i) = Start \<Longrightarrow> lock s = Some j \<Longrightarrow>
     step ctor i s = s"
  "i < length (threads s) \<Longrightarrow> pc (threads s ! i) = AtCheck \<Longrightarrow>
     step ctor i s =
       goto i (if instances (shared s) (cls (threads s ! i)) = None then AtConstruct
               else AtReturn) Check s"
  "i < length (threads s) \<Longrightarrow> pc (threads s ! i) = AtConstruct \<Longrightarrow>
     ctor (cls (threads s ! i)) (targs (threads s ! i)) = Inl e \<Longrightarrow>
     step ctor i s = goto i (AtExit (Inl e)) Construct s"
  "i < length (threads s) \<Longrightarrow> pc (threads s ! i) = AtConstruct \<Longrightarrow>
     ctor (cls (threads s ! i)) (targs (threads s ! i)) = Inr obj \<Longrightarrow>
     step ctor i s =
       goto i (AtStore (length (heap (shared s)))) Construct
         (s\<lparr>shared := (shared s)\<lparr>heap := heap (shared s) @ [obj]\<rparr>\<rparr>)"
  "i < length (threads s) \<Longrightarrow> pc (threads s ! i) = AtStore r \<Longrightarrow>
     step ctor i s =
       goto i AtReturn Store
         (s\<lparr>shared := (shared s)
            \<lparr>instances := (instances (shared s))(cls (threads s ! i) \<mapsto> r)\<rparr>\<rparr>)"
  "i < length (threads s) \<Longrightarrow> pc (threads s ! i) = AtReturn \<Longrightarrow>
     step ctor i s =
       goto i (AtExit (getitem (instances (shared s)) (cls (threads s ! i)))) Read s"
  "i < length (threads s) \<Longrightarrow> pc (threads s ! i) = AtExit res \<Longrightarrow>
     step ctor i s = goto i (Done res) Release (s\<lparr>lock := None\<rparr>)"
  "i < length (threads s) \<Longrightarrow> pc (threads s ! i) = Done res \<Longrightarrow> step ctor i s = s"
  by (simp_all add: step_def Let_def)

lemma sound_boot: "sound ctor (boot m cs)"
  by (simp add: sound_def thread_ok_def boot_def steps_of_def split_beta)

lemma sound_exclusive:
  assumes "sound ctor s" "i < length (threads s)" "j < length (threads s)"
    and "in_with (pc (threads s ! i))" "in_with (pc (threads s ! j))"
  shows "i = j"
proof -
  from assms have "lock s = Some i" "lock s = Some j"
    by (simp_all add: sound_def thread_ok_def Let_def)
  then show ?thesis by simp
qed


lemma sound_step: "sound ctor s \<Longrightarrow> sound ctor (step ctor i s)"
proof (cases "i < length (threads s)")
  case False
  assume "sound ctor s"
  then show ?thesis using False by (simp add: step_simps)
next
  case True
  assume inv: "sound ctor s"
  then have bound: "\<And>k. lock s = Some k \<Longrightarrow> k < length (threads s)"
    and ok: "\<And>j. j < length (threads s) \<Longrightarrow> thread_ok ctor s j"
    by (simp_all add: sound_def)
  have self: "thread_ok ctor s i" using ok True .
  show ?thesis
  proof (cases "pc (threads s ! i)")
    case Start
    show ?thesis
    proof (cases "lock s")
      case None
      have "thread_ok ctor (step ctor i s) j" if "j < length (threads s)" for j
        using ok [OF that] that True Start None
        by (cases "j = i") (simp_all add: step_simps thread_ok_def Let_def)
      then show ?thesis using True Start None by (simp add: sound_def step_simps)
    next
      case (Some j)
      then show ?thesis using inv True Start by (simp add: step_simps)
    qed
  next
    case AtCheck
    have "thread_ok ctor (step ctor i s) j" if "j < length (threads s)" for j
      using ok [OF that] that True AtCheck
      by (cases "j = i") (auto simp: step_simps thread_ok_def Let_def)
    then show ?thesis using True AtCheck bound by (simp add: sound_def step_simps)
  next
    case AtConstruct
    have "thread_ok ctor (step ctor i s) j" if "j < length (threads s)" for j
      using ok [OF that] that True AtConstruct
      by (cases "j = i"; cases "ctor (cls (threads s ! i)) (targs (threads s ! i))")
         (simp_all add: step_simps thread_ok_def Let_def)
    then show ?thesis using True AtConstruct bound
      by (cases "ctor (cls (threads s ! i)) (targs (threads s ! i))")
         (simp_all add: sound_def step_simps)
  next
    case (AtStore r)
    have lk: "lock s = Some i" using self AtStore by (simp add: thread_ok_def Let_def)
    have empty: "instances (shared s) (cls (threads s ! i)) = None"
      using self AtStore by (simp add: thread_ok_def Let_def)
    have "thread_ok ctor (step ctor i s) j" if "j < length (threads s)" for j
    proof (cases "j = i")
      case True
      then show ?thesis using self that AtStore
        by (simp add: step_simps thread_ok_def Let_def)
    next
      case False
      have out: "\<not> in_with (pc (threads s ! j))"
        using ok [OF that] lk False by (simp add: thread_ok_def Let_def)
      show ?thesis
      proof (cases "pc (threads s ! j)")
        case Start
        then show ?thesis using ok [OF that] that False True AtStore
          by (simp add: step_simps thread_ok_def Let_def)
      next
        case (Done res)
        show ?thesis
        proof (cases res)
          case (Inl e)
          then show ?thesis using ok [OF that] that False True AtStore Done
            by (simp add: step_simps thread_ok_def Let_def)
        next
          case (Inr r')
          then have "instances (shared s) (cls (threads s ! j)) = Some r'"
            using ok [OF that] Done by (simp add: thread_ok_def Let_def)
          with empty have "cls (threads s ! j) \<noteq> cls (threads s ! i)" by auto
          then show ?thesis using ok [OF that] that False True AtStore Done Inr
            by (simp add: step_simps thread_ok_def Let_def)
        qed
      qed (use out in simp_all)
    qed
    then show ?thesis using True AtStore bound by (simp add: sound_def step_simps)
  next
    case AtReturn
    have "thread_ok ctor (step ctor i s) j" if "j < length (threads s)" for j
      using ok [OF that] that True AtReturn
      by (cases "j = i")
         (auto simp: step_simps thread_ok_def Let_def getitem_def split: option.splits)
    then show ?thesis using True AtReturn bound by (simp add: sound_def step_simps)
  next
    case (AtExit res)
    have lk: "lock s = Some i" using self AtExit by (simp add: thread_ok_def Let_def)
    have "thread_ok ctor (step ctor i s) j" if "j < length (threads s)" for j
      using ok [OF that] that True AtExit lk
      by (cases "j = i"; cases res) (simp_all add: step_simps thread_ok_def Let_def)
    then show ?thesis using True AtExit by (simp add: sound_def step_simps)
  next
    case (Done res)
    then show ?thesis using inv True by (simp add: step_simps)
  qed
qed

lemma sound_run: "sound ctor s \<Longrightarrow> sound ctor (run ctor sched s)"
  by (induction sched arbitrary: s) (simp_all add: sound_step)

lemma run_append: "run ctor (xs @ ys) s = run ctor ys (run ctor xs s)"
  by (induction xs arbitrary: s) simp_all

lemma step_length [simp]: "length (threads (step ctor i s)) = length (threads s)"
  by (cases "i < length (threads s)"; cases "pc (threads s ! i)"; cases "lock s";
      cases "ctor (cls (threads s ! i)) (targs (threads s ! i))")
     (simp_all add: step_simps)

lemma run_length [simp]: "length (threads (run ctor sched s)) = length (threads s)"
  by (induction sched arbitrary: s) simp_all


lemma step_keeps_entry:
  assumes "sound ctor s" "instances (shared s) c = Some r"
  shows "instances (shared (step ctor i s)) c = Some r"
proof (cases "i < length (threads s)")
  case False
  then show ?thesis using assms by (simp add: step_simps)
next
  case True
  show ?thesis
  proof (cases "pc (threads s ! i)")
    case Start
    then show ?thesis using assms True by (cases "lock s") (simp_all add: step_simps)
  next
    case AtConstruct
    then show ?thesis using assms True
      by (cases "ctor (cls (threads s ! i)) (targs (threads s ! i))") (simp_all add: step_simps)
  next
    case (AtStore r')
    with assms True have "instances (shared s) (cls (threads s ! i)) = None"
      by (simp add: sound_def thread_ok_def Let_def)
    with assms have "cls (threads s ! i) \<noteq> c" by auto
    then show ?thesis using assms True AtStore by (simp add: step_simps)
  qed (use assms True in \<open>simp_all add: step_simps\<close>)
qed

lemma run_keeps_entry:
  "sound ctor s \<Longrightarrow> instances (shared s) c = Some r \<Longrightarrow>
   instances (shared (run ctor sched s)) c = Some r"
  by (induction sched arbitrary: s) (simp_all add: sound_step step_keeps_entry)


lemma constructions_simps [simp]:
  "constructions (goto i p ev s) = constructions s + (if ev = Construct then 1 else 0)"
  "constructions (s\<lparr>lock := l\<rparr>) = constructions s"
  "constructions (s\<lparr>shared := m\<rparr>) = constructions s"
  by (simp_all add: constructions_def)

lemma first_time_boot:
  "instances m c = None \<Longrightarrow> \<forall>a \<in> set as. \<exists>obj. ctor c a = Inr obj \<Longrightarrow>
   first_time c ctor (length (heap m)) (boot m (map (Pair c) as))"
  by (simp add: first_time_def boot_def constructions_def)

lemma first_time_lock [simp]:
  "first_time c ctor h0 (s\<lparr>lock := l\<rparr>) = first_time c ctor h0 s"
  by (simp add: first_time_def)

lemma first_time_goto:
  assumes ft: "first_time c ctor h0 s" and i: "i < length (threads s)"
    and ev: "ev \<noteq> Construct"
    and new: "p \<noteq> AtConstruct" "\<And>r. p \<noteq> AtStore r"
    and old: "\<And>r. pc (threads s ! i) \<noteq> AtStore r"
  shows "first_time c ctor h0 (goto i p ev s)"
proof -
  have per: "cls (threads (goto i p ev s) ! j) = c \<and>
      (\<exists>obj. ctor c (targs (threads (goto i p ev s) ! j)) = Inr obj) \<and>
      (pc (threads (goto i p ev s) ! j) = AtConstruct \<longrightarrow> constructions (goto i p ev s) = 0) \<and>
      (\<forall>r. pc (threads (goto i p ev s) ! j) = AtStore r \<longrightarrow>
         r = h0 \<and> constructions (goto i p ev s) = 1)"
    if "j < length (threads s)" for j
    using ft that ev new by (cases "j = i") (simp_all add: first_time_def)
  have some: "constructions (goto i p ev s) = 0 \<or> instances (shared (goto i p ev s)) c \<noteq> None \<or>
      (\<exists>j < length (threads (goto i p ev s)). \<exists>r. pc (threads (goto i p ev s) ! j) = AtStore r)"
  proof -
    from ft consider "constructions s = 0" | "instances (shared s) c \<noteq> None"
      | j r where "j < length (threads s)" "pc (threads s ! j) = AtStore r"
      by (auto simp: first_time_def)
    then show ?thesis
    proof cases
      case 1
      then show ?thesis using ev by simp
    next
      case 2
      then show ?thesis by simp
    next
      case 3
      with old have "j \<noteq> i" by auto
      with 3 have "j < length (threads (goto i p ev s)) \<and> pc (threads (goto i p ev s) ! j) = AtStore r"
        by simp
      then show ?thesis by blast
    qed
  qed
  have built: "\<exists>j < length (threads (goto i p ev s)).
      ctor c (targs (threads (goto i p ev s) ! j)) = Inr (heap (shared (goto i p ev s)) ! h0)"
    if "constructions (goto i p ev s) = 1"
  proof -
    from that ev have "constructions s = 1" by simp
    with ft obtain j where "j < length (threads s)"
      "ctor c (targs (threads s ! j)) = Inr (heap (shared s) ! h0)"
      by (auto simp: first_time_def)
    then have "j < length (threads (goto i p ev s)) \<and>
      ctor c (targs (threads (goto i p ev s) ! j)) = Inr (heap (shared (goto i p ev s)) ! h0)"
      by simp
    then show ?thesis by blast
  qed
  have rest: "(\<forall>r. instances (shared (goto i p ev s)) c = Some r \<longrightarrow>
        r = h0 \<and> constructions (goto i p ev s) = 1) \<and>
     length (heap (shared (goto i p ev s))) = h0 + constructions (goto i p ev s)"
    using ft ev by (simp add: first_time_def)
  show ?thesis
    unfolding first_time_def using per some built rest by simp
qed

lemma first_time_step:
  assumes inv: "sound ctor s" and ft: "first_time c ctor h0 s"
  shows "first_time c ctor h0 (step ctor i s)"
proof (cases "i < length (threads s)")
  case False
  then show ?thesis using ft by (simp add: step_simps)
next
  case True
  have mine: "cls (threads s ! i) = c" using ft True by (simp add: first_time_def)
  have alone: "\<not> in_with (pc (threads s ! j))"
    if "in_with (pc (threads s ! i))" "j < length (threads s)" "j \<noteq> i" for j
    using sound_exclusive [OF inv True that(2) that(1)] that(3) by auto
  show ?thesis
  proof (cases "pc (threads s ! i)")
    case Start
    show ?thesis
    proof (cases "lock s")
      case None
      have "first_time c ctor h0 (goto i AtCheck Acquire (s\<lparr>lock := Some i\<rparr>))"
        by (rule first_time_goto) (use ft True Start in simp_all)
      then show ?thesis using True Start None by (simp add: step_simps)
    next
      case (Some j)
      then show ?thesis using ft True Start by (simp add: step_simps)
    qed
  next
    case AtCheck
    show ?thesis
    proof (cases "instances (shared s) c = None")
      case False
      have "first_time c ctor h0 (goto i AtReturn Check s)"
        by (rule first_time_goto) (use ft True AtCheck in simp_all)
      moreover have "step ctor i s = goto i AtReturn Check s"
        using True AtCheck False mine by (auto simp: step_simps)
      ultimately show ?thesis by simp
    next
      case empty: True
      have nostore: "pc (threads s ! j) \<noteq> AtStore r" if "j < length (threads s)" for j r
        using alone [of j] that AtCheck by (cases "j = i") auto
      have zero: "constructions s = 0"
        using ft empty nostore by (auto simp: first_time_def)
      have st: "step ctor i s = goto i AtConstruct Check s"
        using True AtCheck empty mine by (simp add: step_simps)
      have per: "cls (threads (step ctor i s) ! j) = c \<and>
          (\<exists>obj. ctor c (targs (threads (step ctor i s) ! j)) = Inr obj) \<and>
          (pc (threads (step ctor i s) ! j) = AtConstruct \<longrightarrow> constructions (step ctor i s) = 0) \<and>
          (\<forall>r. pc (threads (step ctor i s) ! j) = AtStore r \<longrightarrow>
             r = h0 \<and> constructions (step ctor i s) = 1)"
        if "j < length (threads s)" for j
        using ft that zero st by (cases "j = i") (simp_all add: first_time_def)
      have rest: "(\<forall>r. instances (shared (step ctor i s)) c = Some r \<longrightarrow>
            r = h0 \<and> constructions (step ctor i s) = 1) \<and>
          constructions (step ctor i s) = 0 \<and>
          instances (shared (step ctor i s)) c = None \<and>
          length (heap (shared (step ctor i s))) = h0 + constructions (step ctor i s)"
        using st zero empty ft by (simp add: first_time_def)
      show ?thesis
        unfolding first_time_def using per rest by simp
    qed
  next
    case AtConstruct
    from ft True mine obtain obj where obj: "ctor c (targs (threads s ! i)) = Inr obj"
      by (auto simp: first_time_def)
    have zero: "constructions s = 0" using ft True AtConstruct by (simp add: first_time_def)
    have len: "length (heap (shared s)) = h0" using ft zero by (simp add: first_time_def)
    have empty: "instances (shared s) c = None" using ft zero by (auto simp: first_time_def)
    have st: "step ctor i s = goto i (AtStore h0) Construct
        (s\<lparr>shared := (shared s)\<lparr>heap := heap (shared s) @ [obj]\<rparr>\<rparr>)"
      using True AtConstruct obj mine len by (simp add: step_simps)
    have per: "cls (threads (step ctor i s) ! j) = c \<and>
        (\<exists>obj. ctor c (targs (threads (step ctor i s) ! j)) = Inr obj) \<and>
        (pc (threads (step ctor i s) ! j) = AtConstruct \<longrightarrow> constructions (step ctor i s) = 0) \<and>
        (\<forall>r. pc (threads (step ctor i s) ! j) = AtStore r \<longrightarrow>
           r = h0 \<and> constructions (step ctor i s) = 1)"
      if "j < length (threads s)" for j
    proof (cases "j = i")
      case True
      then show ?thesis using ft that zero st by (simp add: first_time_def)
    next
      case False
      have "\<not> in_with (pc (threads s ! j))" using alone [of j] that False AtConstruct by simp
      then have "pc (threads s ! j) \<noteq> AtConstruct" "\<And>r. pc (threads s ! j) \<noteq> AtStore r"
        by auto
      then show ?thesis using ft that zero st False by (simp add: first_time_def)
    qed
    have wit: "i < length (threads (step ctor i s)) \<and> pc (threads (step ctor i s) ! i) = AtStore h0 \<and>
        ctor c (targs (threads (step ctor i s) ! i)) = Inr (heap (shared (step ctor i s)) ! h0)"
    proof -
      have "(heap (shared s) @ [obj]) ! h0 = obj"
        unfolding len [symmetric] by simp
      then show ?thesis using True st obj by simp
    qed
    have some: "constructions (step ctor i s) = 0 \<or> instances (shared (step ctor i s)) c \<noteq> None \<or>
        (\<exists>j<length (threads (step ctor i s)). \<exists>r. pc (threads (step ctor i s) ! j) = AtStore r)"
      using wit by blast
    have built: "\<exists>j<length (threads (step ctor i s)).
        ctor c (targs (threads (step ctor i s) ! j)) = Inr (heap (shared (step ctor i s)) ! h0)"
      using wit by blast
    have rest: "(\<forall>r. instances (shared (step ctor i s)) c = Some r \<longrightarrow>
          r = h0 \<and> constructions (step ctor i s) = 1) \<and>
        length (heap (shared (step ctor i s))) = h0 + constructions (step ctor i s)"
      using st empty zero len by simp
    show ?thesis
      unfolding first_time_def using per some built rest by simp
  next
    case (AtStore r)
    have r: "r = h0" and one: "constructions s = 1"
      using ft True AtStore by (simp_all add: first_time_def)
    have st: "step ctor i s = goto i AtReturn Store
        (s\<lparr>shared := (shared s)\<lparr>instances := (instances (shared s))(c \<mapsto> h0)\<rparr>\<rparr>)"
      using True AtStore mine r by (simp add: step_simps)
    have per: "cls (threads (step ctor i s) ! j) = c \<and>
        (\<exists>obj. ctor c (targs (threads (step ctor i s) ! j)) = Inr obj) \<and>
        (pc (threads (step ctor i s) ! j) = AtConstruct \<longrightarrow> constructions (step ctor i s) = 0) \<and>
        (\<forall>r. pc (threads (step ctor i s) ! j) = AtStore r \<longrightarrow>
           r = h0 \<and> constructions (step ctor i s) = 1)"
      if "j < length (threads s)" for j
    proof (cases "j = i")
      case True
      then show ?thesis using ft that one st by (simp add: first_time_def)
    next
      case False
      have "\<not> in_with (pc (threads s ! j))" using alone [of j] that False AtStore by simp
      then have "pc (threads s ! j) \<noteq> AtConstruct" "\<And>r. pc (threads s ! j) \<noteq> AtStore r"
        by auto
      then show ?thesis using ft that one st False by (simp add: first_time_def)
    qed
    from ft one obtain j where j: "j < length (threads s)"
      "ctor c (targs (threads s ! j)) = Inr (heap (shared s) ! h0)"
      by (auto simp: first_time_def)
    then have wit: "j < length (threads (step ctor i s)) \<and>
        ctor c (targs (threads (step ctor i s) ! j)) = Inr (heap (shared (step ctor i s)) ! h0)"
      using st by simp
    have some: "constructions (step ctor i s) = 0 \<or> instances (shared (step ctor i s)) c \<noteq> None \<or>
        (\<exists>j<length (threads (step ctor i s)). \<exists>r. pc (threads (step ctor i s) ! j) = AtStore r)"
      using st by simp
    have built: "\<exists>j<length (threads (step ctor i s)).
        ctor c (targs (threads (step ctor i s) ! j)) = Inr (heap (shared (step ctor i s)) ! h0)"
      using wit by blast
    have len: "length (heap (shared s)) = h0 + 1" using ft one by (simp add: first_time_def)
    have rest: "(\<forall>r. instances (shared (step ctor i s)) c = Some r \<longrightarrow>
          r = h0 \<and> constructions (step ctor i s) = 1) \<and>
        length (heap (shared (step ctor i s))) = h0 + constructions (step ctor i s)"
      using st one len by simp
    show ?thesis
      unfolding first_time_def using per some built rest by simp
  next
    case AtReturn
    have "first_time c ctor h0
        (goto i (AtExit (getitem (instances (shared s)) (cls (threads s ! i)))) Read s)"
      by (rule first_time_goto) (use ft True AtReturn in simp_all)
    then show ?thesis using True AtReturn by (simp add: step_simps)
  next
    case (AtExit res)
    have "first_time c ctor h0 (goto i (Done res) Release (s\<lparr>lock := None\<rparr>))"
      by (rule first_time_goto) (use ft True AtExit in simp_all)
    then show ?thesis using True AtExit by (simp add: step_simps)
  next
    case (Done res)
    then show ?thesis using ft True by (simp add: step_simps)
  qed
qed

lemma first_time_run:
  "sound ctor s \<Longrightarrow> first_time c ctor h0 s \<Longrightarrow> first_time c ctor h0 (run ctor sched s)"
  by (induction sched arbitrary: s) (simp_all add: sound_step first_time_step)

lemma step_frame:
  "j < length (threads s) \<Longrightarrow> cls (threads (step ctor i s) ! j) = cls (threads s ! j)"
  "j < length (threads s) \<Longrightarrow> targs (threads (step ctor i s) ! j) = targs (threads s ! j)"
  by (cases "i < length (threads s)"; cases "pc (threads s ! i)"; cases "lock s";
      cases "ctor (cls (threads s ! i)) (targs (threads s ! i))";
      simp add: step_simps)+

lemma run_frame:
  "j < length (threads s) \<Longrightarrow> cls (threads (run ctor sched s) ! j) = cls (threads s ! j)"
  "j < length (threads s) \<Longrightarrow> targs (threads (run ctor sched s) ! j) = targs (threads s ! j)"
  by (induction sched arbitrary: s) (simp_all add: step_frame)

lemma solo_call:
  assumes i: "i < length (threads s)" and p: "pc (threads s ! i) = Start" and l: "lock s = None"
  shows "shared (run ctor (replicate 6 i) s) =
           snd (call ctor (cls (threads s ! i)) (targs (threads s ! i)) (shared s)) \<and>
         pc (threads (run ctor (replicate 6 i) s) ! i) =
           Done (fst (call ctor (cls (threads s ! i)) (targs (threads s ! i)) (shared s))) \<and>
         lock (run ctor (replicate 6 i) s) = None"
proof -
  have six: "replicate 6 i = [i, i, i, i, i, i]" by (simp add: numeral_eq_Suc)
  show ?thesis
  proof (cases "instances (shared s) (cls (threads s ! i))")
    case (Some r)
    then show ?thesis using i p l
      by (simp add: six step_simps call_def getitem_def)
  next
    case None
    then show ?thesis using i p l
      by (cases "ctor (cls (threads s ! i)) (targs (threads s ! i))")
         (simp_all add: six step_simps call_def getitem_def Let_def)
  qed
qed

lemma step_other_pc:
  "j < length (threads s) \<Longrightarrow> j \<noteq> i \<Longrightarrow> pc (threads (step ctor i s) ! j) = pc (threads s ! j)"
  by (cases "i < length (threads s)"; cases "pc (threads s ! i)"; cases "lock s";
      cases "ctor (cls (threads s ! i)) (targs (threads s ! i))")
     (simp_all add: step_simps)

lemma run_other_pc:
  "j < length (threads s) \<Longrightarrow> j \<noteq> i \<Longrightarrow>
   pc (threads (run ctor (replicate k i) s) ! j) = pc (threads s ! j)"
  by (induction k arbitrary: s) (simp_all add: step_other_pc)

lemma run_finished_idle:
  "i < length (threads s) \<Longrightarrow> finished (pc (threads s ! i)) \<Longrightarrow>
   run ctor (replicate k i) s = s"
proof (induction k)
  case 0
  then show ?case by simp
next
  case (Suc k)
  from Suc.prems obtain res where "pc (threads s ! i) = Done res"
    by (cases "pc (threads s ! i)") simp_all
  with Suc.prems have "step ctor i s = s" by (simp add: step_simps)
  with Suc show ?case by simp
qed

lemma release_from_exit:
  assumes "k < length (threads s)" "pc (threads s ! k) = AtExit res"
  shows "lock (run ctor (replicate (Suc n) k) s) = None"
proof -
  let ?s = "goto k (Done res) Release (s\<lparr>lock := None\<rparr>)"
  have "step ctor k s = ?s" using assms by (simp add: step_simps)
  moreover have "run ctor (replicate n k) ?s = ?s"
    using assms by (simp add: run_finished_idle)
  ultimately show ?thesis by simp
qed

lemma release_from_return:
  assumes "k < length (threads s)" "pc (threads s ! k) = AtReturn"
  shows "lock (run ctor (replicate (Suc (Suc n)) k) s) = None"
proof -
  let ?s = "goto k (AtExit (getitem (instances (shared s)) (cls (threads s ! k)))) Read s"
  have "step ctor k s = ?s" using assms by (simp add: step_simps)
  moreover have "lock (run ctor (replicate (Suc n) k) ?s) = None"
    using assms by (intro release_from_exit) simp_all
  ultimately show ?thesis by simp
qed

lemma release_from_store:
  assumes "k < length (threads s)" "pc (threads s ! k) = AtStore r"
  shows "lock (run ctor (replicate (Suc (Suc (Suc n))) k) s) = None"
proof -
  let ?s = "goto k AtReturn Store
      (s\<lparr>shared := (shared s)\<lparr>instances := (instances (shared s))(cls (threads s ! k) \<mapsto> r)\<rparr>\<rparr>)"
  have "step ctor k s = ?s" using assms by (simp add: step_simps)
  moreover have "lock (run ctor (replicate (Suc (Suc n)) k) ?s) = None"
    using assms by (intro release_from_return) simp_all
  ultimately show ?thesis by simp
qed

lemma release_from_construct:
  assumes "k < length (threads s)" "pc (threads s ! k) = AtConstruct"
  shows "lock (run ctor (replicate (Suc (Suc (Suc (Suc n)))) k) s) = None"
proof (cases "ctor (cls (threads s ! k)) (targs (threads s ! k))")
  case (Inl e)
  let ?s = "goto k (AtExit (Inl e)) Construct s"
  have "step ctor k s = ?s" using assms Inl by (simp add: step_simps)
  moreover have "lock (run ctor (replicate (Suc (Suc (Suc n))) k) ?s) = None"
    using assms by (intro release_from_exit) simp_all
  ultimately show ?thesis by simp
next
  case (Inr obj)
  let ?s = "goto k (AtStore (length (heap (shared s)))) Construct
      (s\<lparr>shared := (shared s)\<lparr>heap := heap (shared s) @ [obj]\<rparr>\<rparr>)"
  have "step ctor k s = ?s" using assms Inr by (simp add: step_simps)
  moreover have "lock (run ctor (replicate (Suc (Suc (Suc n))) k) ?s) = None"
    using assms by (intro release_from_store) simp_all
  ultimately show ?thesis by simp
qed

lemma release_from_check:
  assumes "k < length (threads s)" "pc (threads s ! k) = AtCheck"
  shows "lock (run ctor (replicate (Suc (Suc (Suc (Suc (Suc n))))) k) s) = None"
proof (cases "instances (shared s) (cls (threads s ! k))")
  case None
  let ?s = "goto k AtConstruct Check s"
  have "step ctor k s = ?s" using assms None by (simp add: step_simps)
  moreover have "lock (run ctor (replicate (Suc (Suc (Suc (Suc n)))) k) ?s) = None"
    using assms by (intro release_from_construct) simp_all
  ultimately show ?thesis by simp
next
  case (Some r)
  let ?s = "goto k AtReturn Check s"
  have "step ctor k s = ?s" using assms Some by (simp add: step_simps)
  moreover have "lock (run ctor (replicate (Suc (Suc (Suc (Suc n)))) k) ?s) = None"
    using assms by (intro release_from_return) simp_all
  ultimately show ?thesis by simp
qed

lemma holder_releases:
  assumes inv: "sound ctor s" and l: "lock s = Some k"
  shows "lock (run ctor (replicate 5 k) s) = None"
proof -
  have five: "(5::nat) = Suc (Suc (Suc (Suc (Suc 0))))" by simp
  from inv l have k: "k < length (threads s)" by (simp add: sound_def)
  with inv l have inside: "in_with (pc (threads s ! k))"
    by (simp add: sound_def thread_ok_def Let_def)
  show ?thesis
  proof (cases "pc (threads s ! k)")
    case Start
    with inside show ?thesis by simp
  next
    case AtCheck
    with k show ?thesis unfolding five by (rule release_from_check)
  next
    case AtConstruct
    with k show ?thesis unfolding five by (rule release_from_construct)
  next
    case (AtStore r)
    with k show ?thesis unfolding five by (rule release_from_store)
  next
    case AtReturn
    with k show ?thesis unfolding five by (rule release_from_return)
  next
    case (AtExit res)
    with k show ?thesis unfolding five by (rule release_from_exit)
  next
    case (Done res)
    with inside show ?thesis by simp
  qed
qed

lemma finish_in_turn:
  assumes inv: "sound ctor s" and l: "lock s = None" and k: "k \<le> length (threads s)"
  shows "lock (run ctor (concat (map (replicate 6) [0..<k])) s) = None \<and>
         (\<forall>j < k. finished (pc (threads (run ctor (concat (map (replicate 6) [0..<k])) s) ! j)))"
  using k
proof (induction k)
  case 0
  then show ?case using l by simp
next
  case (Suc k)
  let ?s = "run ctor (concat (map (replicate 6) [0..<k])) s"
  let ?s' = "run ctor (replicate 6 k) ?s"
  have run: "run ctor (concat (map (replicate 6) [0..<Suc k])) s = ?s'"
    by (simp add: run_append)
  from Suc have free: "lock ?s = None"
    and before: "\<And>j. j < k \<Longrightarrow> finished (pc (threads ?s ! j))"
    by simp_all
  have inv': "sound ctor ?s" using inv by (rule sound_run)
  from Suc.prems have k: "k < length (threads ?s)" by simp
  have out: "\<not> in_with (pc (threads ?s ! k))"
    using inv' k free by (simp add: sound_def thread_ok_def Let_def)
  have mine: "lock ?s' = None \<and> finished (pc (threads ?s' ! k))"
  proof (cases "pc (threads ?s ! k)")
    case Start
    from solo_call [OF k Start free, of ctor] show ?thesis by simp
  next
    case (Done res)
    with k have "?s' = ?s" by (simp add: run_finished_idle)
    with free Done show ?thesis by simp
  qed (use out in simp_all)
  have "finished (pc (threads ?s' ! j))" if "j < Suc k" for j
  proof (cases "j = k")
    case True
    with mine show ?thesis by simp
  next
    case False
    with that have j: "j < k" by simp
    with k have "pc (threads ?s' ! j) = pc (threads ?s ! j)"
      by (simp add: run_other_pc)
    with before [OF j] show ?thesis by simp
  qed
  with mine show ?case unfolding run by blast
qed

lemma can_finish:
  assumes inv: "sound ctor s"
  shows "\<exists>sched. \<forall>t \<in> set (threads (run ctor sched s)). finished (pc t)"
proof -
  obtain pre where free: "lock (run ctor pre s) = None"
  proof (cases "lock s")
    case None
    then have "lock (run ctor [] s) = None" by simp
    then show ?thesis by (rule that)
  next
    case (Some k)
    from holder_releases [OF inv Some] show ?thesis by (rule that)
  qed
  let ?s = "run ctor pre s"
  let ?rest = "concat (map (replicate 6) [0..<length (threads ?s)])"
  have "sound ctor ?s" using inv by (rule sound_run)
  from finish_in_turn [OF this free order_refl]
  have "\<forall>j < length (threads ?s). finished (pc (threads (run ctor ?rest ?s) ! j))"
    by blast
  then have "\<forall>t \<in> set (threads (run ctor (pre @ ?rest) s)). finished (pc t)"
    by (auto simp: run_append in_set_conv_nth)
  then show ?thesis by blast
qed

lemmas eval_defs = main_system_def main_args_def boot_def fresh_def step_def goto_def Let_def
  Singleton_ctor_def Singleton_new_def positional_def getitem_def

lemma main_run_all:
  "run Singleton_ctor [0, 1, 0, 0, 0, 1, 0, 0, 1, 1, 1, 1] main_system =
     \<lparr>shared = \<lparr>instances = [''Singleton'' \<mapsto> 0], heap = [\<lparr>Singleton_value = ''FOO''\<rparr>]\<rparr>,
      lock = None,
      threads = [\<lparr>cls = ''Singleton'', targs = positional [''FOO''], pc = Done (Inr 0)\<rparr>,
                 \<lparr>cls = ''Singleton'', targs = positional [''BAR''], pc = Done (Inr 0)\<rparr>],
      trace = [(0, Acquire), (0, Check), (0, Construct), (0, Store), (0, Read), (0, Release),
               (1, Acquire), (1, Check), (1, Read), (1, Release)]\<rparr>"
  by (simp add: eval_defs)


section \<open>Properties of the observer list\<close>

lemma update_set:
  "subject_state w self = Some v \<Longrightarrow>
   \<exists>w'. update ob self w = (None, w') \<and> updated w' = updated w @ [(ob, self)] \<and>
        subject_state w' = subject_state w \<and> observers w' = observers w"
  by (cases ob) (simp_all add: Let_def print_def)

lemma notify_loop_set:
  "subject_state w self = Some v \<Longrightarrow>
   \<exists>w'. notify_loop obs self w = (None, w') \<and>
        updated w' = updated w @ map (\<lambda>ob. (ob, self)) obs \<and>
        subject_state w' = subject_state w \<and> observers w' = observers w"
proof (induction obs arbitrary: w)
  case Nil
  then show ?case by simp
next
  case (Cons ob obs)
  from update_set [OF Cons.prems, of ob] obtain w1 where
    w1: "update ob self w = (None, w1)" "updated w1 = updated w @ [(ob, self)]"
      "subject_state w1 = subject_state w" "observers w1 = observers w"
    by blast
  from w1(3) Cons.prems have "subject_state w1 self = Some v" by simp
  from Cons.IH [OF this] obtain w' where
    "notify_loop obs self w1 = (None, w')"
    "updated w' = updated w1 @ map (\<lambda>ob. (ob, self)) obs"
    "subject_state w' = subject_state w1" "observers w' = observers w1"
    by blast
  with w1 show ?case by simp
qed

lemma notify_set:
  assumes "subject_state w self = Some v"
  shows "fst (notify self w) = None \<and>
         new_updates w (snd (notify self w)) = map (\<lambda>ob. (ob, self)) (observers w) \<and>
         observers (snd (notify self w)) = observers w"
proof -
  let ?w1 = "print ''Subject: Notifying observers...'' w"
  have "subject_state ?w1 self = Some v" using assms by (simp add: print_def)
  from notify_loop_set [OF this, of "observers ?w1"] obtain w' where
    "notify_loop (observers ?w1) self ?w1 = (None, w')"
    "updated w' = updated ?w1 @ map (\<lambda>ob. (ob, self)) (observers ?w1)"
    "observers w' = observers ?w1"
    by blast
  then show ?thesis by (simp add: notify_def new_updates_def print_def Let_def)
qed

lemma list_remove_in:
  "x \<in> set xs \<Longrightarrow>
   \<exists>ys zs. xs = ys @ x # zs \<and> x \<notin> set ys \<and> list_remove x xs = Inr (ys @ zs)"
proof (induction xs)
  case Nil
  then show ?case by simp
next
  case (Cons y xs)
  show ?case
  proof (cases "y = x")
    case True
    then have "y # xs = [] @ x # xs \<and> x \<notin> set [] \<and> list_remove x (y # xs) = Inr ([] @ xs)"
      by simp
    then show ?thesis by blast
  next
    case False
    with Cons obtain ys zs where "xs = ys @ x # zs" "x \<notin> set ys" "list_remove x xs = Inr (ys @ zs)"
      by auto
    with False have "y # xs = (y # ys) @ x # zs \<and> x \<notin> set (y # ys) \<and>
        list_remove x (y # xs) = Inr ((y # ys) @ zs)"
      by simp
    then show ?thesis by blast
  qed
qed

lemma list_remove_notin: "x \<notin> set xs \<Longrightarrow> list_remove x xs = Inl ValueError"
  by (induction xs) auto

text \<open>
  Before \<open>some_business_logic\<close> has run, \<open>_state\<close> is \<open>None\<close>: the first \<open>update\<close>
  raises and the observers after it are not called.
\<close>

lemma notify_before_state_raises:
  "fst (notify 0 (attach 0 (ConcreteObserverB 1) (attach 0 (ConcreteObserverA 0) world0))) =
     Some TypeError \<and>
   updated (snd (notify 0 (attach 0 (ConcreteObserverB 1)
     (attach 0 (ConcreteObserverA 0) world0)))) = [(ConcreteObserverA 0, 0)]"
  by (simp add: notify_def attach_def print_def world0_def Let_def)

section \<open>The claims\<close>

subsection \<open>Singleton\<close>

text \<open>
  Claim C1. Any number of threads make their first call to the same class at once, the
  class has no instance yet, and no construction raises. Then, however the threads are
  interleaved: the calls can all run to their end from every state reached; at no
  point have two constructions happened; and once all calls have ended, exactly one
  construction has happened, the heap has exactly one more object, and every call has
  returned that one object, which was built from the arguments of one of the callers.
  \<open>ctor\<close> is a function: a constructor that itself calls a class of this metaclass,
  and so would wait for the lock its own caller holds, is outside the model.
\<close>

theorem concurrent_first_calls_construct_once:
  assumes absent: "instances m c = None"
    and some: "as \<noteq> []"
    and builds: "\<forall>a \<in> set as. \<exists>obj. ctor c a = Inr obj"
    and s: "s = run ctor sched (boot m (map (Pair c) as))"
  shows "(\<exists>sched'. \<forall>t \<in> set (threads (run ctor sched' s)). finished (pc t)) \<and>
         constructions s \<le> 1 \<and>
         ((\<forall>t \<in> set (threads s). finished (pc t)) \<longrightarrow>
            constructions s = 1 \<and>
            length (heap (shared s)) = length (heap m) + 1 \<and>
            instances (shared s) c = Some (length (heap m)) \<and>
            length (threads s) = length as \<and>
            (\<forall>t \<in> set (threads s). pc t = Done (Inr (length (heap m)))) \<and>
            (\<exists>a \<in> set as. ctor c a = Inr (heap (shared s) ! length (heap m))))"
proof -
  let ?h = "length (heap m)"
  have inv: "sound ctor s" unfolding s by (rule sound_run) (rule sound_boot)
  have "first_time c ctor ?h (boot m (map (Pair c) as))"
    using absent builds by (rule first_time_boot)
  then have ft: "first_time c ctor ?h s"
    unfolding s by (rule first_time_run [OF sound_boot])
  have n: "length (threads s) = length as" by (simp add: s boot_def)
  have ends: "\<exists>sched'. \<forall>t \<in> set (threads (run ctor sched' s)). finished (pc t)"
    using inv by (rule can_finish)
  have le: "constructions s \<le> 1"
    using ft by (auto simp: first_time_def)
  have after: "constructions s = 1 \<and>
      length (heap (shared s)) = ?h + 1 \<and>
      instances (shared s) c = Some ?h \<and>
      length (threads s) = length as \<and>
      (\<forall>t \<in> set (threads s). pc t = Done (Inr ?h)) \<and>
      (\<exists>a \<in> set as. ctor c a = Inr (heap (shared s) ! ?h))"
    if fin: "\<forall>t \<in> set (threads s). finished (pc t)"
  proof -
    have ended: "pc (threads s ! j) = Done (Inr ?h) \<and> instances (shared s) c = Some ?h"
      if j: "j < length (threads s)" for j
    proof -
      from fin j have "finished (pc (threads s ! j))" by simp
      then obtain res where res: "pc (threads s ! j) = Done res"
        by (cases "pc (threads s ! j)") simp_all
      have ok: "thread_ok ctor s j" using inv j by (simp add: sound_def)
      have cj: "cls (threads s ! j) = c"
        and bj: "\<exists>obj. ctor c (targs (threads s ! j)) = Inr obj"
        using ft j by (simp_all add: first_time_def)
      show ?thesis
      proof (cases res)
        case (Inl e)
        with ok res cj have "ctor c (targs (threads s ! j)) = Inl e"
          by (simp add: thread_ok_def Let_def)
        with bj show ?thesis by simp
      next
        case (Inr r)
        with ok res cj have slot: "instances (shared s) c = Some r"
          by (simp add: thread_ok_def Let_def)
        with ft have "r = ?h" by (simp add: first_time_def)
        with slot res Inr show ?thesis by simp
      qed
    qed
    from some n have zero: "0 < length (threads s)" by simp
    have slot: "instances (shared s) c = Some ?h" using ended [OF zero] by simp
    with ft have one: "constructions s = 1" by (simp add: first_time_def)
    with ft have len: "length (heap (shared s)) = ?h + 1" by (simp add: first_time_def)
    have all: "\<forall>t \<in> set (threads s). pc t = Done (Inr ?h)"
      using ended by (auto simp: in_set_conv_nth)
    from ft one obtain j where j: "j < length (threads s)"
      "ctor c (targs (threads s ! j)) = Inr (heap (shared s) ! ?h)"
      by (auto simp: first_time_def)
    have "targs (threads s ! j) = as ! j"
      using j(1) n unfolding s by (simp add: run_frame boot_def)
    with j n have "as ! j \<in> set as \<and> ctor c (as ! j) = Inr (heap (shared s) ! ?h)" by simp
    then have winner: "\<exists>a \<in> set as. ctor c a = Inr (heap (shared s) ! ?h)" by blast
    show ?thesis using one len slot n all winner by simp
  qed
  show ?thesis using ends le after by blast
qed

text \<open>
  The notebook's two threads under a schedule in which the second thread tries to enter
  while the first holds the lock.
\<close>

theorem concurrent_first_calls_construct_once_witness:
  "instances (fresh :: (string, string Singleton) meta) ''Singleton'' = None \<and>
   main_args \<noteq> [] \<and>
   Singleton_ctor ''Singleton'' (positional [''FOO'']) = Inr \<lparr>Singleton_value = ''FOO''\<rparr> \<and>
   Singleton_ctor ''Singleton'' (positional [''BAR'']) = Inr \<lparr>Singleton_value = ''BAR''\<rparr> \<and>
   map pc (threads (run Singleton_ctor [0, 1, 0, 0, 0, 1, 0, 0, 1, 1, 1, 1] main_system)) =
     [Done (Inr 0), Done (Inr 0)] \<and>
   constructions (run Singleton_ctor [0, 1, 0, 0, 0, 1, 0, 0, 1, 1, 1, 1] main_system) = 1 \<and>
   length (heap (shared (run Singleton_ctor [0, 1, 0, 0, 0, 1, 0, 0, 1, 1, 1, 1] main_system))) = 1 \<and>
   instances (shared (run Singleton_ctor [0, 1, 0, 0, 0, 1, 0, 0, 1, 1, 1, 1] main_system))
     ''Singleton'' = Some 0"
proof -
  let ?s = "run Singleton_ctor [0, 1, 0, 0, 0, 1, 0, 0, 1, 1, 1, 1] main_system"
  have absent: "instances (fresh :: (string, string Singleton) meta) ''Singleton'' = None"
    by (simp add: fresh_def)
  have some: "main_args \<noteq> []" by (simp add: main_args_def)
  have foo: "Singleton_ctor ''Singleton'' (positional [''FOO'']) = Inr \<lparr>Singleton_value = ''FOO''\<rparr>"
    and bar: "Singleton_ctor ''Singleton'' (positional [''BAR'']) = Inr \<lparr>Singleton_value = ''BAR''\<rparr>"
    by (simp_all add: Singleton_ctor_def Singleton_new_def positional_def)
  have builds: "\<forall>a \<in> set main_args. \<exists>obj. Singleton_ctor ''Singleton'' a = Inr obj"
    using foo bar by (simp add: main_args_def)
  have s: "?s = run Singleton_ctor [0, 1, 0, 0, 0, 1, 0, 0, 1, 1, 1, 1]
      (boot fresh (map (Pair ''Singleton'') main_args))"
    by (simp add: main_system_def)
  have pcs: "map pc (threads ?s) = [Done (Inr 0), Done (Inr 0)]"
    unfolding main_run_all by simp
  have fin: "\<forall>t \<in> set (threads ?s). finished (pc t)"
    unfolding main_run_all by simp
  have "constructions ?s = 1 \<and>
      length (heap (shared ?s)) = length (heap (fresh :: (string, string Singleton) meta)) + 1 \<and>
      instances (shared ?s) ''Singleton'' =
        Some (length (heap (fresh :: (string, string Singleton) meta)))"
    using concurrent_first_calls_construct_once
      [where ctor = Singleton_ctor and c = "''Singleton''" and as = main_args
         and m = "fresh :: (string, string Singleton) meta" and s = ?s
         and sched = "[0, 1, 0, 0, 0, 1, 0, 0, 1, 1, 1, 1]",
       OF absent some builds s] fin
    by blast
  then show ?thesis using absent some foo bar pcs by (simp add: fresh_def)
qed

text \<open>
  Claim C2. When the dict already holds an instance for the class, \<open>__call__\<close> returns
  that instance and changes nothing: not the dict, not the heap, so not the object
  either. The result does not depend on the arguments or on the constructor, which is
  not run.
\<close>

theorem call_existing_returns_stored:
  "instances s c = Some r \<Longrightarrow> call ctor c a s = (Inr r, s)"
  by (simp add: call_def getitem_def)

text \<open>The scenario of the claim: \<open>"X"\<close> called with \<open>"FOO"\<close>, then with \<open>"BAR"\<close>.\<close>

theorem call_existing_returns_stored_witness:
  "call Singleton_ctor ''X'' (positional [''FOO'']) fresh =
     (Inr 0, \<lparr>instances = [''X'' \<mapsto> 0], heap = [\<lparr>Singleton_value = ''FOO''\<rparr>]\<rparr>) \<and>
   call Singleton_ctor ''X'' (positional [''BAR''])
       \<lparr>instances = [''X'' \<mapsto> 0], heap = [\<lparr>Singleton_value = ''FOO''\<rparr>]\<rparr> =
     (Inr 0, \<lparr>instances = [''X'' \<mapsto> 0], heap = [\<lparr>Singleton_value = ''FOO''\<rparr>]\<rparr>) \<and>
   heap \<lparr>instances = [''X'' \<mapsto> (0::nat)], heap = [\<lparr>Singleton_value = ''FOO''\<rparr>]\<rparr> ! 0 =
     \<lparr>Singleton_value = ''FOO''\<rparr>"
proof -
  let ?s1 = "\<lparr>instances = [''X'' \<mapsto> (0::nat)], heap = [\<lparr>Singleton_value = ''FOO''\<rparr>]\<rparr>"
  have first: "call Singleton_ctor ''X'' (positional [''FOO'']) fresh = (Inr 0, ?s1)"
    by (simp add: call_def getitem_def fresh_def Singleton_ctor_def Singleton_new_def
        positional_def)
  have present: "instances ?s1 ''X'' = Some 0" by simp
  show ?thesis
    using first call_existing_returns_stored [OF present, of Singleton_ctor "positional [''BAR'']"]
    by simp
qed

text \<open>
  Claim C3. When the dict holds no instance for the class and the construction returns
  an object, \<open>__call__\<close> puts that object on the heap under a new identity, stores the
  identity under the class, and returns it. The objects already on the heap and the
  entries of other classes are as before. (A construction that raises is claim C6.)
\<close>

theorem call_absent_constructs_stores_returns:
  "instances s c = None \<Longrightarrow> ctor c a = Inr obj \<Longrightarrow>
   \<exists>r s'. call ctor c a s = (Inr r, s') \<and>
     instances s' c = Some r \<and>
     heap s' = heap s @ [obj] \<and> r = length (heap s) \<and> heap s' ! r = obj \<and>
     (\<forall>c'. c' \<noteq> c \<longrightarrow> instances s' c' = instances s c')"
  by (simp add: call_def getitem_def Let_def)

theorem call_absent_constructs_stores_returns_witness:
  "instances (fresh :: (string, string Singleton) meta) ''X'' = None \<and>
   Singleton_ctor ''X'' (positional [''FOO'']) = Inr \<lparr>Singleton_value = ''FOO''\<rparr> \<and>
   fst (call Singleton_ctor ''X'' (positional [''FOO'']) fresh) = Inr 0 \<and>
   instances (snd (call Singleton_ctor ''X'' (positional [''FOO'']) fresh)) ''X'' = Some 0 \<and>
   heap (snd (call Singleton_ctor ''X'' (positional [''FOO'']) fresh)) =
     [\<lparr>Singleton_value = ''FOO''\<rparr>]"
proof -
  have absent: "instances (fresh :: (string, string Singleton) meta) ''X'' = None"
    by (simp add: fresh_def)
  have built: "Singleton_ctor ''X'' (positional [''FOO'']) = Inr \<lparr>Singleton_value = ''FOO''\<rparr>"
    by (simp add: Singleton_ctor_def Singleton_new_def positional_def)
  from call_absent_constructs_stores_returns
      [where ctor = Singleton_ctor and c = "''X''" and a = "positional [''FOO'']"
         and s = "fresh :: (string, string Singleton) meta", OF absent built]
  obtain r s' where
    "call Singleton_ctor ''X'' (positional [''FOO'']) fresh = (Inr r, s')"
    "instances s' ''X'' = Some r"
    "heap s' = heap (fresh :: (string, string Singleton) meta) @ [\<lparr>Singleton_value = ''FOO''\<rparr>]"
    "r = length (heap (fresh :: (string, string Singleton) meta))"
    by blast
  then show ?thesis using absent built by (simp add: fresh_def)
qed

text \<open>
  Claim C4. The dict gives each class at most one instance, and an entry that exists
  stays as it is: after any further calls, made one after the other, and in the
  threaded model after any further steps of any threads, from any state the threads
  can reach.
\<close>

theorem registry_entries_persist:
  "card {r. instances (calls ctor cs s) c = Some r} \<le> 1 \<and>
   (instances (calls ctor cs s) c = Some r \<longrightarrow>
      instances (calls ctor (cs @ ds) s) c = Some r) \<and>
   (instances (shared (run ctor' sched (boot m ts))) c = Some r \<longrightarrow>
      instances (shared (run ctor' (sched @ sched') (boot m ts))) c = Some r)"
proof -
  have one: "card {r. instances (calls ctor cs s) c = Some r} \<le> 1"
    by (cases "instances (calls ctor cs s) c") simp_all
  have seq: "instances (calls ctor cs s) c = Some r \<longrightarrow>
      instances (calls ctor (cs @ ds) s) c = Some r"
    by (simp add: calls_append calls_keeps_entry)
  have par: "instances (shared (run ctor' sched (boot m ts))) c = Some r \<longrightarrow>
      instances (shared (run ctor' (sched @ sched') (boot m ts))) c = Some r"
    by (simp add: run_append run_keeps_entry sound_run sound_boot)
  show ?thesis using one seq par by blast
qed

theorem registry_entries_persist_witness:
  "instances (calls Singleton_ctor [(''X'', positional [''FOO''])] fresh) ''X'' = Some 0 \<and>
   instances (calls Singleton_ctor
      ([(''X'', positional [''FOO''])] @ [(''X'', positional [''BAR'']), (''Y'', positional [''BAZ''])])
      fresh) ''X'' = Some 0 \<and>
   instances (shared (run Singleton_ctor [0, 1, 0, 0, 0] main_system)) ''Singleton'' = Some 0 \<and>
   instances (shared (run Singleton_ctor ([0, 1, 0, 0, 0] @ [1, 0, 0, 1, 1, 1, 1]) main_system))
     ''Singleton'' = Some 0"
proof -
  have seq: "instances (calls Singleton_ctor [(''X'', positional [''FOO''])] fresh) ''X'' = Some 0"
    by (simp add: call_def getitem_def fresh_def Singleton_ctor_def Singleton_new_def
        positional_def)
  have par: "instances (shared (run Singleton_ctor [0, 1, 0, 0, 0]
      (boot fresh (map (Pair ''Singleton'') main_args)))) ''Singleton'' = Some 0"
    by (simp add: eval_defs)
  have seq': "instances (calls Singleton_ctor
      ([(''X'', positional [''FOO''])] @ [(''X'', positional [''BAR'']), (''Y'', positional [''BAZ''])])
      fresh) ''X'' = Some 0"
    using seq registry_entries_persist
      [where ctor = Singleton_ctor and cs = "[(''X'', positional [''FOO''])]"
         and s = "fresh :: (string, string Singleton) meta" and c = "''X''" and r = 0
         and ds = "[(''X'', positional [''BAR'']), (''Y'', positional [''BAZ''])]"]
    by blast
  have par': "instances (shared (run Singleton_ctor ([0, 1, 0, 0, 0] @ [1, 0, 0, 1, 1, 1, 1])
      (boot fresh (map (Pair ''Singleton'') main_args)))) ''Singleton'' = Some 0"
    using par registry_entries_persist
      [where ctor' = Singleton_ctor and sched = "[0, 1, 0, 0, 0]"
         and m = "fresh :: (string, string Singleton) meta"
         and ts = "map (Pair ''Singleton'') main_args" and c = "''Singleton''" and r = 0
         and sched' = "[1, 0, 0, 1, 1, 1, 1]"]
    by blast
  show ?thesis
    using seq seq' par par' unfolding main_system_def by blast
qed



text \<open>
  Claim C6. When the dict holds no instance for the class and the construction raises,
  the call ends with that exception and leaves dict and heap as they were; a later
  call for the same class whose construction returns an object stores and returns that
  object. In the threaded model the thread that ran such a call has ended with the
  exception, the state the threads share is unchanged, and the lock is free again.
\<close>

theorem call_raise_leaves_registry:
  assumes "instances s c = None" and "ctor c a = Inl e"
  shows "call ctor c a s = (Inl e, s) \<and>
         (\<forall>a' obj. ctor c a' = Inr obj \<longrightarrow>
            (\<exists>r s'. call ctor c a' (snd (call ctor c a s)) = (Inr r, s') \<and>
               instances s' c = Some r \<and> heap s' ! r = obj)) \<and>
         (\<forall>sys i. i < length (threads sys) \<and> pc (threads sys ! i) = Start \<and> lock sys = None \<and>
              cls (threads sys ! i) = c \<and> targs (threads sys ! i) = a \<and> shared sys = s \<longrightarrow>
            pc (threads (run ctor (replicate 6 i) sys) ! i) = Done (Inl e) \<and>
            lock (run ctor (replicate 6 i) sys) = None \<and>
            shared (run ctor (replicate 6 i) sys) = s)"
proof -
  have raised: "call ctor c a s = (Inl e, s)"
    using assms by (rule call_absent_raise)
  have retry: "\<forall>a' obj. ctor c a' = Inr obj \<longrightarrow>
      (\<exists>r s'. call ctor c a' (snd (call ctor c a s)) = (Inr r, s') \<and>
         instances s' c = Some r \<and> heap s' ! r = obj)"
    using assms by (simp add: call_def getitem_def Let_def)
  have threaded: "pc (threads (run ctor (replicate 6 i) sys) ! i) = Done (Inl e) \<and>
      lock (run ctor (replicate 6 i) sys) = None \<and>
      shared (run ctor (replicate 6 i) sys) = s"
    if "i < length (threads sys)" "pc (threads sys ! i) = Start" "lock sys = None"
      "cls (threads sys ! i) = c" "targs (threads sys ! i) = a" "shared sys = s"
    for sys i
    using solo_call [OF that(1-3), of ctor] that(4-6) raised by simp
  show ?thesis using raised retry threaded by blast
qed

text \<open>\<open>Singleton()\<close> without the argument raises \<open>TypeError\<close>; \<open>Singleton("FOO")\<close> after it succeeds.\<close>

theorem call_raise_leaves_registry_witness:
  "instances (fresh :: (string, string Singleton) meta) ''X'' = None \<and>
   Singleton_ctor ''X'' (positional []) = Inl TypeError \<and>
   call Singleton_ctor ''X'' (positional []) fresh = (Inl TypeError, fresh) \<and>
   Singleton_ctor ''X'' (positional [''FOO'']) = Inr \<lparr>Singleton_value = ''FOO''\<rparr> \<and>
   fst (call Singleton_ctor ''X'' (positional [''FOO''])
          (snd (call Singleton_ctor ''X'' (positional []) fresh))) = Inr 0 \<and>
   pc (threads (run Singleton_ctor (replicate 6 0) (boot fresh [(''X'', positional [])])) ! 0) =
     Done (Inl TypeError) \<and>
   lock (run Singleton_ctor (replicate 6 0) (boot fresh [(''X'', positional [])])) = None"
proof -
  let ?sys = "boot fresh [(''X'', positional [])] ::
    (string, string Singleton, string pyargs) system"
  have absent: "instances (fresh :: (string, string Singleton) meta) ''X'' = None"
    by (simp add: fresh_def)
  have raises: "Singleton_ctor ''X'' (positional []) = Inl TypeError"
    by (simp add: Singleton_ctor_def Singleton_new_def positional_def)
  have built: "Singleton_ctor ''X'' (positional [''FOO'']) = Inr \<lparr>Singleton_value = ''FOO''\<rparr>"
    by (simp add: Singleton_ctor_def Singleton_new_def positional_def)
  have sys: "0 < length (threads ?sys) \<and> pc (threads ?sys ! 0) = Start \<and> lock ?sys = None \<and>
      cls (threads ?sys ! 0) = ''X'' \<and> targs (threads ?sys ! 0) = positional [] \<and>
      shared ?sys = fresh"
    by (simp add: boot_def)
  note inst = call_raise_leaves_registry
      [where ctor = Singleton_ctor and c = "''X''" and a = "positional []"
         and s = "fresh :: (string, string Singleton) meta", OF absent raises]
  from inst have unchanged: "call Singleton_ctor ''X'' (positional []) fresh = (Inl TypeError, fresh)"
    by blast
  from inst sys have threaded:
    "pc (threads (run Singleton_ctor (replicate 6 0) ?sys) ! 0) = Done (Inl TypeError) \<and>
     lock (run Singleton_ctor (replicate 6 0) ?sys) = None"
    by blast
  from inst built obtain r s' where
    "call Singleton_ctor ''X'' (positional [''FOO''])
       (snd (call Singleton_ctor ''X'' (positional []) fresh)) = (Inr r, s')"
    by blast
  moreover have "call Singleton_ctor ''X'' (positional [''FOO'']) fresh =
      (Inr 0, \<lparr>instances = [''X'' \<mapsto> 0], heap = [\<lparr>Singleton_value = ''FOO''\<rparr>]\<rparr>)"
    by (simp add: call_def getitem_def fresh_def Singleton_ctor_def Singleton_new_def
        positional_def)
  ultimately have retry: "fst (call Singleton_ctor ''X'' (positional [''FOO''])
      (snd (call Singleton_ctor ''X'' (positional []) fresh))) = Inr 0"
    using unchanged by simp
  show ?thesis using absent raises unchanged built retry threaded by blast
qed

text \<open>
  Claim C7. Once the dict holds an instance for a class, any number of further calls for
  that class, with any arguments, leave the whole state as it is, the entry of the class
  in particular, and each of them returns the stored instance.
\<close>

theorem repeated_calls_leave_slot:
  "instances s c = Some r \<Longrightarrow>
   calls ctor (map (Pair c) as) s = s \<and>
   instances (calls ctor (map (Pair c) as) s) c = Some r \<and>
   (\<forall>a \<in> set as. call ctor c a s = (Inr r, s))"
  by (simp add: calls_same_class call_present)

theorem repeated_calls_leave_slot_witness:
  "instances \<lparr>instances = [''X'' \<mapsto> (0::nat)], heap = [\<lparr>Singleton_value = ''FOO''\<rparr>]\<rparr> ''X'' = Some 0 \<and>
   calls Singleton_ctor (map (Pair ''X'') [positional [''BAR''], positional [], positional [''BAZ'']])
       \<lparr>instances = [''X'' \<mapsto> 0], heap = [\<lparr>Singleton_value = ''FOO''\<rparr>]\<rparr> =
     \<lparr>instances = [''X'' \<mapsto> 0], heap = [\<lparr>Singleton_value = ''FOO''\<rparr>]\<rparr> \<and>
   call Singleton_ctor ''X'' (positional [''BAZ''])
       \<lparr>instances = [''X'' \<mapsto> 0], heap = [\<lparr>Singleton_value = ''FOO''\<rparr>]\<rparr> =
     (Inr 0, \<lparr>instances = [''X'' \<mapsto> 0], heap = [\<lparr>Singleton_value = ''FOO''\<rparr>]\<rparr>)"
proof -
  let ?s1 = "\<lparr>instances = [''X'' \<mapsto> (0::nat)], heap = [\<lparr>Singleton_value = ''FOO''\<rparr>]\<rparr>"
  have present: "instances ?s1 ''X'' = Some 0" by simp
  have member: "positional [''BAZ''] \<in> set [positional [''BAR''], positional [], positional [''BAZ'']]"
    by simp
  show ?thesis
    using present member
      repeated_calls_leave_slot
        [where ctor = Singleton_ctor and s = ?s1 and c = "''X''" and r = 0
           and as = "[positional [''BAR''], positional [], positional [''BAZ'']]", OF present]
    by blast
qed

subsection \<open>Observer\<close>

text \<open>
  Claim C8, as stated: \<open>notify\<close> calls \<open>update\<close> exactly once on each attached
  observer. It fails for an observer attached twice: \<open>attach\<close> appends without looking,
  the list holds the observer twice, and \<open>notify\<close> calls it twice.
\<close>

theorem notify_duplicate_counterexample:
  "observers twice_attached = [ConcreteObserverA 0, ConcreteObserverA 0] \<and>
   fst (notify 0 twice_attached) = None \<and>
   count_list (map fst (new_updates twice_attached (snd (notify 0 twice_attached))))
     (ConcreteObserverA 0) = 2"
  by (simp add: twice_attached_def state_set_def ConcreteSubject_some_business_logic_def
      notify_def attach_def print_def world0_def new_updates_def Let_def)

text \<open>
  Claim C8, amended: on a subject whose \<open>_state\<close> has been set, \<open>notify\<close> returns
  normally and calls \<open>update\<close> once for each entry of the observer list, in the order of
  the list, which is the order of attachment; an observer that is in the list twice is
  called twice. The list is as before. (With \<open>_state\<close> still \<open>None\<close> the first
  \<open>update\<close> raises \<open>TypeError\<close>; the amended claim says nothing about that case.)
\<close>

theorem notify_updates_each_entry_in_order:
  "subject_state w self = Some v \<Longrightarrow>
   fst (notify self w) = None \<and>
   new_updates w (snd (notify self w)) = map (\<lambda>ob. (ob, self)) (observers w) \<and>
   observers (snd (notify self w)) = observers w"
  by (rule notify_set)

theorem notify_updates_each_entry_in_order_witness:
  "subject_state demo_world 0 = Some 5 \<and>
   observers demo_world = [ConcreteObserverA 0, ConcreteObserverB 1] \<and>
   fst (notify 0 demo_world) = None \<and>
   new_updates demo_world (snd (notify 0 demo_world)) =
     [(ConcreteObserverA 0, 0), (ConcreteObserverB 1, 0)]"
proof -
  have st: "subject_state demo_world 0 = Some 5"
    by (simp add: demo_world_def state_set_def ConcreteSubject_some_business_logic_def
        notify_def attach_def print_def world0_def Let_def)
  have obs: "observers demo_world = [ConcreteObserverA 0, ConcreteObserverB 1]"
    by (simp add: demo_world_def state_set_def ConcreteSubject_some_business_logic_def
        notify_def attach_def print_def world0_def Let_def)
  show ?thesis
    using st obs notify_updates_each_entry_in_order [OF st] by simp
qed

text \<open>
  Claim C9, as stated: for every pair of distinct subjects, an observer attached through
  the first is called by \<open>notify\<close> on the second. It fails when the second subject has
  never run \<open>some_business_logic\<close> and the list already holds another observer:
  \<open>_state\<close> of the second subject is \<open>None\<close>, the \<open>update\<close> of the earlier observer
  raises \<open>TypeError\<close>, the loop ends, and the observer just attached is not called.
  Here observer A is in the list, observer B is attached through subject 0, and the
  fresh subject 1 notifies.
\<close>

theorem observers_shared_fresh_subject_counterexample:
  "observers (attach 0 (ConcreteObserverB 1) (attach 0 (ConcreteObserverA 0) world0)) =
     [ConcreteObserverA 0, ConcreteObserverB 1] \<and>
   subject_state (attach 0 (ConcreteObserverB 1) (attach 0 (ConcreteObserverA 0) world0)) 1 =
     None \<and>
   fst (notify 1 (attach 0 (ConcreteObserverB 1) (attach 0 (ConcreteObserverA 0) world0))) =
     Some TypeError \<and>
   new_updates (attach 0 (ConcreteObserverB 1) (attach 0 (ConcreteObserverA 0) world0))
     (snd (notify 1 (attach 0 (ConcreteObserverB 1) (attach 0 (ConcreteObserverA 0) world0)))) =
     [(ConcreteObserverA 0, 1)] \<and>
   (ConcreteObserverB 1, 1) \<notin> set
     (new_updates (attach 0 (ConcreteObserverB 1) (attach 0 (ConcreteObserverA 0) world0))
       (snd (notify 1 (attach 0 (ConcreteObserverB 1) (attach 0 (ConcreteObserverA 0) world0)))))"
  by (simp add: notify_def attach_def print_def world0_def new_updates_def Let_def)

text \<open>
  Claim C9, amended: the observer list belongs to the class. \<open>attach\<close> through any
  subject appends to the same list, whichever subject it is called on, and \<open>notify\<close> on
  another subject whose \<open>_state\<close> has been set returns normally and calls the observer
  that was attached through the first, passing itself. (With \<open>_state\<close> of the
  notifying subject still \<open>None\<close> the first \<open>update\<close> raises; the amended claim says
  nothing about that case.)
\<close>

theorem observers_shared_between_subjects:
  assumes "subject_state w s2 = Some v"
  shows "observers (attach s1 ob w) = observers w @ [ob] \<and>
         observers (attach s1 ob w) = observers (attach s2 ob w) \<and>
         fst (notify s2 (attach s1 ob w)) = None \<and>
         (ob, s2) \<in> set (new_updates (attach s1 ob w) (snd (notify s2 (attach s1 ob w))))"
proof -
  have "subject_state (attach s1 ob w) s2 = Some v"
    using assms by (simp add: attach_def print_def Let_def)
  from notify_set [OF this] show ?thesis
    by (simp add: attach_def print_def Let_def)
qed

text \<open>Subject 0 has its state set; the observer is attached through subject 1 and subject 0 notifies.\<close>

theorem observers_shared_between_subjects_witness:
  "subject_state state_set 0 = Some 5 \<and>
   observers (attach 1 (ConcreteObserverB 3) state_set) = [ConcreteObserverB 3] \<and>
   fst (notify 0 (attach 1 (ConcreteObserverB 3) state_set)) = None \<and>
   (ConcreteObserverB 3, 0) \<in> set (new_updates (attach 1 (ConcreteObserverB 3) state_set)
      (snd (notify 0 (attach 1 (ConcreteObserverB 3) state_set))))"
proof -
  have st: "subject_state state_set 0 = Some 5"
    by (simp add: state_set_def ConcreteSubject_some_business_logic_def
        notify_def print_def world0_def Let_def)
  have obs: "observers state_set = []"
    by (simp add: state_set_def ConcreteSubject_some_business_logic_def
        notify_def print_def world0_def Let_def)
  show ?thesis
    using st obs observers_shared_between_subjects [OF st, of 1 "ConcreteObserverB 3"] by simp
qed

text \<open>
  Claim C10. \<open>detach\<close> of an observer that is in the list returns normally and removes
  its first occurrence, leaving everything before and after it; \<open>detach\<close> of an
  observer that is not in the list raises \<open>ValueError\<close> and leaves the list as it was.
\<close>

theorem detach_removes_first_or_raises:
  "(ob \<in> set (observers w) \<longrightarrow>
      (\<exists>ys zs. observers w = ys @ ob # zs \<and> ob \<notin> set ys \<and>
         fst (detach self ob w) = None \<and> observers (snd (detach self ob w)) = ys @ zs)) \<and>
   (ob \<notin> set (observers w) \<longrightarrow>
      fst (detach self ob w) = Some ValueError \<and>
      observers (snd (detach self ob w)) = observers w)"
proof (intro conjI impI)
  assume "ob \<in> set (observers w)"
  from list_remove_in [OF this] obtain ys zs where
    "observers w = ys @ ob # zs" "ob \<notin> set ys" "list_remove ob (observers w) = Inr (ys @ zs)"
    by blast
  then have "observers w = ys @ ob # zs \<and> ob \<notin> set ys \<and>
      fst (detach self ob w) = None \<and> observers (snd (detach self ob w)) = ys @ zs"
    by (simp add: detach_def print_def Let_def)
  then show "\<exists>ys zs. observers w = ys @ ob # zs \<and> ob \<notin> set ys \<and>
      fst (detach self ob w) = None \<and> observers (snd (detach self ob w)) = ys @ zs"
    by blast
next
  assume "ob \<notin> set (observers w)"
  then show "fst (detach self ob w) = Some ValueError"
    by (simp add: detach_def print_def Let_def list_remove_notin)
next
  assume "ob \<notin> set (observers w)"
  then show "observers (snd (detach self ob w)) = observers w"
    by (simp add: detach_def print_def Let_def list_remove_notin)
qed

text \<open>
  One observer attached twice with a second observer in between: detaching the first
  removes its first occurrence only; detaching an observer that was never attached raises.
\<close>

theorem detach_removes_first_or_raises_witness:
  "observers (attach 0 (ConcreteObserverA 0) (attach 0 (ConcreteObserverB 1)
      (attach 0 (ConcreteObserverA 0) world0))) =
     [ConcreteObserverA 0, ConcreteObserverB 1, ConcreteObserverA 0] \<and>
   fst (detach 0 (ConcreteObserverA 0) (attach 0 (ConcreteObserverA 0)
      (attach 0 (ConcreteObserverB 1) (attach 0 (ConcreteObserverA 0) world0)))) = None \<and>
   observers (snd (detach 0 (ConcreteObserverA 0) (attach 0 (ConcreteObserverA 0)
      (attach 0 (ConcreteObserverB 1) (attach 0 (ConcreteObserverA 0) world0))))) =
     [ConcreteObserverB 1, ConcreteObserverA 0] \<and>
   fst (detach 0 (ConcreteObserverB 9) (attach 0 (ConcreteObserverA 0)
      (attach 0 (ConcreteObserverB 1) (attach 0 (ConcreteObserverA 0) world0)))) =
     Some ValueError \<and>
   observers (snd (detach 0 (ConcreteObserverB 9) (attach 0 (ConcreteObserverA 0)
      (attach 0 (ConcreteObserverB 1) (attach 0 (ConcreteObserverA 0) world0))))) =
     [ConcreteObserverA 0, ConcreteObserverB 1, ConcreteObserverA 0]"
proof -
  let ?w = "attach 0 (ConcreteObserverA 0) (attach 0 (ConcreteObserverB 1)
      (attach 0 (ConcreteObserverA 0) world0))"
  have obs: "observers ?w = [ConcreteObserverA 0, ConcreteObserverB 1, ConcreteObserverA 0]"
    by (simp add: attach_def print_def world0_def Let_def)
  have inside: "ConcreteObserverA 0 \<in> set (observers ?w)"
    and outside: "ConcreteObserverB 9 \<notin> set (observers ?w)"
    unfolding obs by simp_all
  from detach_removes_first_or_raises [of "ConcreteObserverA 0" ?w 0] inside
  obtain ys zs where split: "observers ?w = ys @ ConcreteObserverA 0 # zs"
    "ConcreteObserverA 0 \<notin> set ys"
    and removed: "fst (detach 0 (ConcreteObserverA 0) ?w) = None"
      "observers (snd (detach 0 (ConcreteObserverA 0) ?w)) = ys @ zs"
    by blast
  from split obs have "ys = []" by (cases ys) auto
  with split obs have "zs = [ConcreteObserverB 1, ConcreteObserverA 0]" by simp
  with removed \<open>ys = []\<close> have first:
    "observers (snd (detach 0 (ConcreteObserverA 0) ?w)) =
       [ConcreteObserverB 1, ConcreteObserverA 0]"
    by simp
  from detach_removes_first_or_raises [of "ConcreteObserverB 9" ?w 0] outside
  have raised: "fst (detach 0 (ConcreteObserverB 9) ?w) = Some ValueError"
    "observers (snd (detach 0 (ConcreteObserverB 9) ?w)) = observers ?w"
    by blast+
  show ?thesis using obs removed(1) first raised by simp
qed

end
